theory Spec2Isabelle
  imports Main
begin

section \<open>The board engine of my2048.py\<close>

subsection \<open>Constants: board size, goal, directions\<close>

type_synonym pos = "nat \<times> nat"
type_synonym grid = "int option list list"

definition N :: nat where
  "N = 4"

definition GOAL :: int where
  "GOAL = 2048"

text \<open>
  A direction is a list of lines, a line a list of \<open>(r, c)\<close> positions, first the cell
  at the edge the tiles move to. \<open>i[::-1]\<close> is \<open>rev\<close>.
\<close>

definition UP :: "pos list list" where
  "UP = map (\<lambda>c. map (\<lambda>r. (r, c)) [0..<N]) [0..<N]"

definition LEFT :: "pos list list" where
  "LEFT = map (\<lambda>r. map (\<lambda>c. (r, c)) [0..<N]) [0..<N]"

definition DOWN :: "pos list list" where
  "DOWN = map rev UP"

definition RIGHT :: "pos list list" where
  "RIGHT = map rev LEFT"

definition DIRS :: "pos list list list" where
  "DIRS = [UP, LEFT, DOWN, RIGHT]"

definition FLATPOS :: "pos list" where
  "FLATPOS = concat (map (\<lambda>r. map (\<lambda>c. (r, c)) [0..<N]) [0..<N])"

subsection \<open>Cells\<close>

text \<open>
  A cell is \<open>None\<close> or an int. The source tests cells with \<open>not b[r][c]\<close> and
  \<open>if b[nr][nc]\<close>, Python truthiness: \<open>None\<close> and \<open>0\<close> are false.
\<close>

fun truthy :: "int option \<Rightarrow> bool" where
  "truthy None = False"
| "truthy (Some v) = (v \<noteq> 0)"

fun cell :: "grid \<Rightarrow> pos \<Rightarrow> int option" where
  "cell b (r, c) = b ! r ! c"

fun setcell :: "grid \<Rightarrow> pos \<Rightarrow> int option \<Rightarrow> grid" where
  "setcell b (r, c) v = b[r := (b ! r)[c := v]]"

text \<open>
  The grid is built by \<open>reset\<close> only, as \<open>N\<close> rows of \<open>N\<close> cells, and every
  position the source indexes it with comes from the constants above, so that no index is
  out of range. \<open>wf\<close> is that shape, \<open>inb\<close> the range of the positions.
\<close>

definition wf :: "grid \<Rightarrow> bool" where
  "wf b = (length b = N \<and> list_all (\<lambda>row. length row = N) b)"

fun inb :: "pos \<Rightarrow> bool" where
  "inb (r, c) = (r < N \<and> c < N)"

subsection \<open>The state of a Board\<close>

record board =
  cells :: grid
  won :: bool
  lost :: bool

definition gameover :: "board \<Rightarrow> bool" where
  "gameover s = (won s \<or> lost s)"

subsection \<open>Random choices\<close>

text \<open>
  The two draws of \<open>_add_tile_if_room\<close> are parameters: \<open>fst rnd\<close> selects the element
  that \<open>random.choice(empty)\<close> returns, \<open>snd rnd\<close> the element of the population
  \<open>2\<close> (nine times), \<open>4\<close> (once) that \<open>random.sample\<close> returns.
\<close>

type_synonym rnd = "nat \<times> nat"

definition randtile :: "nat \<Rightarrow> int" where
  "randtile j = (replicate 9 2 @ replicate 1 4) ! (j mod 10)"

definition add_tile_if_room :: "grid \<Rightarrow> rnd \<Rightarrow> grid" where
  "add_tile_if_room b rnd =
     (let empty = filter (\<lambda>p. \<not> truthy (cell b p)) FLATPOS
      in if empty = [] then b
         else setcell b (empty ! (fst rnd mod length empty)) (Some (randtile (snd rnd))))"

text \<open>\<open>reset\<close> overwrites all three attributes, so the new state does not depend on the old one.\<close>

definition reset :: "rnd \<Rightarrow> rnd \<Rightarrow> board" where
  "reset r1 r2 =
     \<lparr>cells = add_tile_if_room (add_tile_if_room (replicate N (replicate N None)) r1) r2,
      won = False, lost = False\<rparr>"

subsection \<open>move\<close>

text \<open>\<open>next(((nr, nc) for (nr, nc) in rest if b[nr][nc]), MISS)\<close>; \<open>None\<close> is \<open>MISS\<close>.\<close>

definition nxt :: "grid \<Rightarrow> pos list \<Rightarrow> pos option" where
  "nxt b rest = find (\<lambda>q. truthy (cell b q)) rest"

text \<open>The first \<open>if\<close> of the loop body: an empty cell takes the next tile of the line.\<close>

definition slide :: "grid \<Rightarrow> pos \<Rightarrow> pos list \<Rightarrow> grid \<times> bool" where
  "slide b p rest =
     (if \<not> truthy (cell b p) then
        (case nxt b rest of
           None \<Rightarrow> (b, False)
         | Some q \<Rightarrow> (setcell (setcell b p (cell b q)) q None, True))
      else (b, False))"

text \<open>
  The inner loop, \<open>for i, (r, c) in enumerate(posns)\<close> with \<open>rest = posns[i+1:]\<close>, on the
  triple of the grid \<open>b\<close>, \<open>moved\<close> and \<open>self.won\<close>; \<open>jc\<close> is \<open>_just_checking\<close>.
  Both \<open>break\<close>s return the triple.
\<close>

fun move_line :: "bool \<Rightarrow> pos list \<Rightarrow> grid \<times> bool \<times> bool \<Rightarrow> grid \<times> bool \<times> bool" where
  "move_line jc [] st = st"
| "move_line jc (p # rest) (b, moved, w) =
     (let (b1, ch) = slide b p rest; moved1 = (moved \<or> ch)
      in if \<not> truthy (cell b1 p) then (b1, moved1, w)
         else (case nxt b1 rest of
                 None \<Rightarrow> (b1, moved1, w)
               | Some q \<Rightarrow>
                   if cell b1 p = cell b1 q then
                     (let b2 = setcell b1 q None;
                          b3 = setcell b2 p (map_option (\<lambda>v. v * 2) (cell b2 p))
                      in move_line jc rest (b3, True, w \<or> (\<not> jc \<and> cell b3 p = Some GOAL)))
                   else move_line jc rest (b1, moved1, w)))"

text \<open>The outer loop, \<open>for posns in dir\<close>.\<close>

fun move_lines :: "bool \<Rightarrow> pos list list \<Rightarrow> grid \<times> bool \<times> bool \<Rightarrow> grid \<times> bool \<times> bool" where
  "move_lines jc [] st = st"
| "move_lines jc (posns # ls) st = move_lines jc ls (move_line jc posns st)"

text \<open>
  \<open>move(dir, True)\<close>: the loops run on a deep copy of the grid, which is dropped, and
  \<open>self.won\<close> is assigned the value the loops computed.
\<close>

definition move_check :: "board \<Rightarrow> pos list list \<Rightarrow> bool \<times> board" where
  "move_check s dir =
     (case move_lines True dir (cells s, False, won s) of
        (b, moved, w) \<Rightarrow> (moved, s\<lparr>won := w\<rparr>))"

definition cant_move :: "board \<Rightarrow> bool" where
  "cant_move s = (\<not> list_ex (\<lambda>d. fst (move_check s d)) DIRS)"

text \<open>
  \<open>move(dir, _just_checking)\<close>, returning \<open>moved\<close> and the state. The call of
  \<open>_cant_move\<close> only makes dry runs, which call nothing further.
\<close>

definition move :: "board \<Rightarrow> pos list list \<Rightarrow> bool \<Rightarrow> rnd \<Rightarrow> bool \<times> board" where
  "move s dir jc rnd =
     (if jc then move_check s dir
      else (case move_lines False dir (cells s, False, won s) of
        (b, moved, w) \<Rightarrow>
          (let s1 = s\<lparr>cells := b, won := w\<rparr>;
               s2 = s1\<lparr>lost := (\<not> won s1 \<and> cant_move s1)\<rparr>
           in if moved \<and> \<not> gameover s2
              then (moved, s2\<lparr>cells := add_tile_if_room (cells s2) rnd\<rparr>)
              else (moved, s2))))"

subsection \<open>Reachable states\<close>

text \<open>
  The states of a Board after \<open>Board()\<close> and any calls of \<open>reset\<close> and of \<open>move\<close> with
  one of the four directions, dry runs included, whatever the random draws.
\<close>

inductive reachable :: "board \<Rightarrow> bool" where
  new: "reachable (reset r1 r2)"
| reset: "reachable s \<Longrightarrow> reachable (reset r1 r2)"
| move: "reachable s \<Longrightarrow> d \<in> set DIRS \<Longrightarrow> reachable (snd (move s d jc rnd))"

subsection \<open>Notions used in the properties\<close>

text \<open>The two updates of the loop body: the slide of the tile at \<open>q\<close> into \<open>p\<close>, and the merge.\<close>

definition slide_at :: "grid \<Rightarrow> pos \<Rightarrow> pos \<Rightarrow> grid" where
  "slide_at b p q = setcell (setcell b p (cell b q)) q None"

definition merge_at :: "grid \<Rightarrow> pos \<Rightarrow> pos \<Rightarrow> grid" where
  "merge_at b p q =
     setcell (setcell b q None) p (map_option (\<lambda>v. v * 2) (cell (setcell b q None) p))"

text \<open>The number of occupied cells, counted the way \<open>_add_tile_if_room\<close> finds the empty ones.\<close>

definition count_tiles :: "grid \<Rightarrow> nat" where
  "count_tiles b = length (filter (\<lambda>p. truthy (cell b p)) FLATPOS)"

text \<open>Every cell is empty or holds \<open>2 ^ k\<close> with \<open>k > 0\<close>, on a grid of the right shape.\<close>

definition good_grid :: "grid \<Rightarrow> bool" where
  "good_grid b =
     (wf b \<and> (\<forall>p. inb p \<longrightarrow> cell b p = None \<or> (\<exists>k. 0 < k \<and> cell b p = Some (2 ^ k))))"

text \<open>A grid with all cells occupied, and one where no two neighbours in a row or a column are equal.\<close>

definition full :: "grid \<Rightarrow> bool" where
  "full b = (\<forall>p. inb p \<longrightarrow> truthy (cell b p))"

definition no_equal_neighbours :: "grid \<Rightarrow> bool" where
  "no_equal_neighbours b =
     ((\<forall>r c. r < N \<and> c + 1 < N \<longrightarrow> cell b (r, c) \<noteq> cell b (r, c + 1)) \<and>
      (\<forall>r c. r + 1 < N \<and> c < N \<longrightarrow> cell b (r, c) \<noteq> cell b (r + 1, c)))"

text \<open>
  The merges of a move: the loops of \<open>move\<close> again, returning the values that
  \<open>b[r][c] *= 2\<close> leaves in \<open>b[r][c]\<close>, in the order of the merges, in place of
  \<open>moved\<close> and \<open>won\<close>.
\<close>

fun merged_line :: "pos list \<Rightarrow> grid \<Rightarrow> int option list" where
  "merged_line [] b = []"
| "merged_line (p # rest) b =
     (let (b1, ch) = slide b p rest
      in if \<not> truthy (cell b1 p) then []
         else (case nxt b1 rest of
                 None \<Rightarrow> []
               | Some q \<Rightarrow>
                   if cell b1 p = cell b1 q
                   then cell (merge_at b1 p q) p # merged_line rest (merge_at b1 p q)
                   else merged_line rest b1))"

fun merged_lines :: "pos list list \<Rightarrow> grid \<Rightarrow> int option list" where
  "merged_lines [] b = []"
| "merged_lines (posns # ls) b =
     merged_line posns b @ merged_lines ls (fst (move_line True posns (b, False, False)))"

text \<open>
  The rule of the game for one line, in the words of the specification: the tiles of the
  line, in order, with each tile merged at most once (two equal neighbours become one tile
  of twice the value, which is not merged again), then the empty cells.
\<close>

fun tiles :: "int option list \<Rightarrow> int list" where
  "tiles [] = []"
| "tiles (None # cs) = tiles cs"
| "tiles (Some v # cs) = v # tiles cs"

fun merge_pairs :: "int list \<Rightarrow> int list" where
  "merge_pairs (x # y # zs) =
     (if x = y then (x * 2) # merge_pairs zs else x # merge_pairs (y # zs))"
| "merge_pairs xs = xs"

definition pad :: "nat \<Rightarrow> int list \<Rightarrow> int option list" where
  "pad n ts = map Some ts @ replicate (n - length ts) None"

definition line_spec :: "int option list \<Rightarrow> int option list" where
  "line_spec cs = pad (length cs) (merge_pairs (tiles cs))"

subsection \<open>Example boards\<close>

definition stuck_grid :: grid where
  "stuck_grid = [[Some 2, Some 4, Some 2, Some 4], [Some 4, Some 2, Some 4, Some 2],
                 [Some 2, Some 4, Some 2, Some 4], [Some 4, Some 2, Some 4, Some 2]]"

definition stuck_board :: board where
  "stuck_board = \<lparr>cells = stuck_grid, won = False, lost = False\<rparr>"

definition open_grid :: grid where
  "open_grid = [[Some 2, Some 2, Some 2, Some 2], [None, Some 2, None, Some 4],
                [Some 1024, None, Some 1024, None], [None, None, None, None]]"

definition open_board :: board where
  "open_board = \<lparr>cells = open_grid, won = False, lost = False\<rparr>"

definition near_win_grid :: grid where
  "near_win_grid = [[Some 1024, Some 1024, None, None], [Some 2, None, None, None],
                    [None, None, None, None], [None, None, None, None]]"

definition near_win_board :: board where
  "near_win_board = \<lparr>cells = near_win_grid, won = False, lost = False\<rparr>"

section \<open>Properties\<close>

subsection \<open>Cells and positions\<close>

lemma wf_nth: "wf b = (length b = N \<and> (\<forall>i<N. length (b ! i) = N))"
  by (auto simp: wf_def list_all_length)

lemma wf_setcell: "wf b \<Longrightarrow> wf (setcell b p v)"
proof (cases p)
  case (Pair r c)
  assume w: "wf b"
  have "length (b[r := (b ! r)[c := v]] ! i) = length (b ! i)" if "i < N" for i
    using that w by (cases "i = r") (auto simp: wf_nth)
  then show ?thesis using w Pair by (simp add: wf_nth)
qed

lemma cell_setcell:
  "wf b \<Longrightarrow> inb p \<Longrightarrow> cell (setcell b p v) q = (if q = p then v else cell b q)"
  by (cases p; cases q) (auto simp: wf_nth nth_list_update)

lemma nxt_Some: "nxt b rest = Some q \<Longrightarrow> q \<in> set rest \<and> truthy (cell b q)"
  by (auto simp: nxt_def find_Some_iff)

lemma nxt_None: "nxt b rest = None \<longleftrightarrow> (\<forall>q\<in>set rest. \<not> truthy (cell b q))"
  by (auto simp: nxt_def find_None_iff)

lemma UP_eq:
  "UP = [[(0,0),(1,0),(2,0),(3,0)], [(0,1),(1,1),(2,1),(3,1)],
         [(0,2),(1,2),(2,2),(3,2)], [(0,3),(1,3),(2,3),(3,3)]]"
  by (simp add: UP_def N_def upt_rec)

lemma LEFT_eq:
  "LEFT = [[(0,0),(0,1),(0,2),(0,3)], [(1,0),(1,1),(1,2),(1,3)],
           [(2,0),(2,1),(2,2),(2,3)], [(3,0),(3,1),(3,2),(3,3)]]"
  by (simp add: LEFT_def N_def upt_rec)

lemma DOWN_eq:
  "DOWN = [[(3,0),(2,0),(1,0),(0,0)], [(3,1),(2,1),(1,1),(0,1)],
           [(3,2),(2,2),(1,2),(0,2)], [(3,3),(2,3),(1,3),(0,3)]]"
  by (simp add: DOWN_def UP_eq)

lemma RIGHT_eq:
  "RIGHT = [[(0,3),(0,2),(0,1),(0,0)], [(1,3),(1,2),(1,1),(1,0)],
            [(2,3),(2,2),(2,1),(2,0)], [(3,3),(3,2),(3,1),(3,0)]]"
  by (simp add: RIGHT_def LEFT_eq)

lemma FLATPOS_eq:
  "FLATPOS = [(0,0),(0,1),(0,2),(0,3), (1,0),(1,1),(1,2),(1,3),
              (2,0),(2,1),(2,2),(2,3), (3,0),(3,1),(3,2),(3,3)]"
  by (simp add: FLATPOS_def N_def upt_rec)

lemma distinct_FLATPOS: "distinct FLATPOS"
  by (simp add: FLATPOS_eq)

lemma set_FLATPOS: "p \<in> set FLATPOS \<longleftrightarrow> inb p"
  by (cases p) (force simp: FLATPOS_def)

lemma lines_DIRS: "list_all (list_all (\<lambda>l. distinct l \<and> list_all inb l)) DIRS"
  by (simp add: DIRS_def UP_eq LEFT_eq DOWN_eq RIGHT_eq N_def)

lemma DIRS_lines:
  assumes "d \<in> set DIRS" and "l \<in> set d"
  shows "distinct l" and "\<forall>p\<in>set l. inb p"
  using assms lines_DIRS by (auto simp: list_all_iff)

lemmas eval_defs =
  move_def move_check_def cant_move_def gameover_def slide_def nxt_def add_tile_if_room_def
  randtile_def DIRS_def UP_eq LEFT_eq DOWN_eq RIGHT_eq FLATPOS_eq GOAL_def
  stuck_board_def stuck_grid_def open_board_def open_grid_def

subsection \<open>A dry run computes the grid and \<open>moved\<close> of the real move, and keeps \<open>won\<close>\<close>

lemma move_line_dry:
  "move_line True l (b, m, w) =
     (fst (move_line jc l (b, m, w')), fst (snd (move_line jc l (b, m, w'))), w)"
proof (induction l arbitrary: b m w w')
  case Nil
  show ?case by simp
next
  case (Cons p rest)
  show ?case
    by (simp add: Let_def Cons.IH[symmetric] split: prod.splits option.splits)
qed

lemma move_lines_dry:
  "move_lines True ls (b, m, w) =
     (fst (move_lines jc ls (b, m, w')), fst (snd (move_lines jc ls (b, m, w'))), w)"
proof (induction ls arbitrary: b m w w')
  case Nil
  show ?case by simp
next
  case (Cons l ls)
  obtain b1 m1 w1 where e: "move_line jc l (b, m, w') = (b1, m1, w1)"
    by (cases "move_line jc l (b, m, w')") auto
  have "move_line True l (b, m, w) = (b1, m1, w)"
    using move_line_dry[of l b m w jc w'] e by simp
  then show ?case using e Cons.IH[of b1 m1 w w1] by simp
qed

lemma move_check_eq:
  "move_check s d = (fst (snd (move_lines jc d (cells s, False, w))), s)"
  using move_lines_dry[of d "cells s" False "won s" jc w]
  by (simp add: move_check_def)

text \<open>
  C6. For every direction (indeed every list of lines) a call \<open>move(d, _just_checking=True)\<close>
  leaves the whole state, grid, \<open>won\<close> and \<open>lost\<close>, as it was, and returns the value the
  real move returns from the same state.
\<close>

theorem dry_run_frame:
  "snd (move s d True rnd) = s \<and> fst (move s d True rnd) = fst (move s d False rnd')"
  by (simp add: move_def move_check_eq[of s d False "won s"] Let_def split: prod.splits)

theorem dry_run_frame_witness:
  "snd (move open_board LEFT True (0, 0)) = open_board \<and> fst (move open_board LEFT True (0, 0))"
proof -
  have "fst (move open_board LEFT False (0, 0))"
    by (simp add: eval_defs)
  then show ?thesis
    using dry_run_frame[of open_board LEFT "(0, 0)" "(0, 0)"] by simp
qed

subsection \<open>A move that reports no change wrote nothing\<close>

lemma move_line_unmoved:
  "\<not> fst (snd (move_line jc l (b, m, w))) \<Longrightarrow> fst (move_line jc l (b, m, w)) = b \<and> \<not> m"
proof (induction l arbitrary: b m w)
  case Nil
  then show ?case by simp
next
  case (Cons p rest)
  then show ?case
    by (fastforce simp: Let_def slide_def split: prod.splits option.splits if_splits)
qed

lemma move_lines_unmoved:
  "\<not> fst (snd (move_lines jc ls (b, m, w))) \<Longrightarrow> fst (move_lines jc ls (b, m, w)) = b \<and> \<not> m"
proof (induction ls arbitrary: b m w)
  case Nil
  then show ?case by simp
next
  case (Cons l ls)
  obtain b1 m1 w1 where e: "move_line jc l (b, m, w) = (b1, m1, w1)"
    by (cases "move_line jc l (b, m, w)") auto
  with Cons.prems have "\<not> fst (snd (move_lines jc ls (b1, m1, w1)))" by simp
  from Cons.IH[OF this] have 1: "fst (move_lines jc ls (b1, m1, w1)) = b1" "\<not> m1" by auto
  with e move_line_unmoved[of jc l b m w] have "b1 = b \<and> \<not> m" by simp
  with 1 e show ?case by simp
qed

text \<open>
  C2. In every state, reachable or not, and for every direction: when a real call
  \<open>move(d)\<close> returns false, the grid after the call is the grid before it.
\<close>

theorem unmoved_grid_unchanged:
  "\<not> fst (move s d False rnd) \<Longrightarrow> cells (snd (move s d False rnd)) = cells s"
  using move_lines_unmoved[of False d "cells s" False "won s"]
  by (auto simp: move_def Let_def split: prod.splits)

theorem unmoved_grid_unchanged_witness:
  "\<not> fst (move stuck_board LEFT False (0, 0)) \<and>
   cells (snd (move stuck_board LEFT False (0, 0))) = stuck_grid"
proof -
  have h: "\<not> fst (move stuck_board LEFT False (0, 0))"
    by (simp add: eval_defs)
  show ?thesis
    using h unmoved_grid_unchanged[OF h] by (simp add: stuck_board_def)
qed

subsection \<open>An invariant rule for the loops\<close>

lemma move_line_inv:
  assumes "distinct l" and "set l \<subseteq> L" and "I (b, m, w)"
    and sl: "\<And>b m w p q. I (b, m, w) \<Longrightarrow> p \<in> L \<Longrightarrow> q \<in> L \<Longrightarrow> p \<noteq> q \<Longrightarrow>
            \<not> truthy (cell b p) \<Longrightarrow> truthy (cell b q) \<Longrightarrow> I (slide_at b p q, True, w)"
    and mg: "\<And>b m w p q. I (b, m, w) \<Longrightarrow> p \<in> L \<Longrightarrow> q \<in> L \<Longrightarrow> p \<noteq> q \<Longrightarrow>
            truthy (cell b p) \<Longrightarrow> truthy (cell b q) \<Longrightarrow> cell b p = cell b q \<Longrightarrow>
            I (merge_at b p q, True, w \<or> (\<not> jc \<and> cell (merge_at b p q) p = Some GOAL))"
  shows "I (move_line jc l (b, m, w))"
  using assms(1-3)
proof (induction l arbitrary: b m w)
  case Nil
  then show ?case by simp
next
  case (Cons p rest)
  have dr: "distinct rest" and ir: "set rest \<subseteq> L" and ip: "p \<in> L" and pr: "p \<notin> set rest"
    using Cons.prems by auto
  obtain b1 ch where s: "slide b p rest = (b1, ch)"
    by (cases "slide b p rest") auto
  have I1: "I (b1, m \<or> ch, w)"
  proof (cases "\<not> truthy (cell b p) \<and> nxt b rest \<noteq> None")
    case True
    then obtain q where q: "nxt b rest = Some q" by auto
    with True s have e: "b1 = slide_at b p q" "ch = True"
      by (auto simp: slide_def slide_at_def)
    have "q \<in> L" "p \<noteq> q" "truthy (cell b q)"
      using nxt_Some[OF q] ir pr by auto
    then show ?thesis
      using sl[OF Cons.prems(3) ip, of q] True e by simp
  next
    case False
    with s have "b1 = b" "ch = False"
      by (auto simp: slide_def split: option.splits)
    then show ?thesis using Cons.prems(3) by simp
  qed
  show ?case
  proof (cases "truthy (cell b1 p)")
    case False
    then show ?thesis using s I1 by simp
  next
    case t: True
    show ?thesis
    proof (cases "nxt b1 rest")
      case None
      then show ?thesis using s I1 t by simp
    next
      case (Some q)
      have q: "q \<in> L" "p \<noteq> q" "truthy (cell b1 q)"
        using nxt_Some[OF Some] ir pr by auto
      show ?thesis
      proof (cases "cell b1 p = cell b1 q")
        case True
        let ?w = "w \<or> (\<not> jc \<and> cell (merge_at b1 p q) p = Some GOAL)"
        have "I (merge_at b1 p q, True, ?w)"
          using mg[OF I1 ip q(1,2) t q(3) True] .
        then have "I (move_line jc rest (merge_at b1 p q, True, ?w))"
          using Cons.IH[OF dr ir] by blast
        then show ?thesis
          using s t Some True by (simp add: merge_at_def Let_def)
      next
        case False
        have "I (move_line jc rest (b1, m \<or> ch, w))"
          using Cons.IH[OF dr ir I1] .
        then show ?thesis using s t Some False by simp
      qed
    qed
  qed
qed

lemma move_lines_inv:
  assumes "\<forall>l\<in>set ls. distinct l \<and> set l \<subseteq> L" and "I (b, m, w)"
    and sl: "\<And>b m w p q. I (b, m, w) \<Longrightarrow> p \<in> L \<Longrightarrow> q \<in> L \<Longrightarrow> p \<noteq> q \<Longrightarrow>
            \<not> truthy (cell b p) \<Longrightarrow> truthy (cell b q) \<Longrightarrow> I (slide_at b p q, True, w)"
    and mg: "\<And>b m w p q. I (b, m, w) \<Longrightarrow> p \<in> L \<Longrightarrow> q \<in> L \<Longrightarrow> p \<noteq> q \<Longrightarrow>
            truthy (cell b p) \<Longrightarrow> truthy (cell b q) \<Longrightarrow> cell b p = cell b q \<Longrightarrow>
            I (merge_at b p q, True, w \<or> (\<not> jc \<and> cell (merge_at b p q) p = Some GOAL))"
  shows "I (move_lines jc ls (b, m, w))"
  using assms(1,2)
proof (induction ls arbitrary: b m w)
  case Nil
  then show ?case by simp
next
  case (Cons l ls)
  obtain b1 m1 w1 where e: "move_line jc l (b, m, w) = (b1, m1, w1)"
    by (cases "move_line jc l (b, m, w)") auto
  have "distinct l" "set l \<subseteq> L" using Cons.prems(1) by auto
  then have "I (move_line jc l (b, m, w))"
    using Cons.prems(2) sl mg by (rule move_line_inv)
  then have "I (b1, m1, w1)" using e by simp
  then have "I (move_lines jc ls (b1, m1, w1))"
    using Cons.IH Cons.prems(1) by simp
  then show ?case using e by simp
qed

text \<open>The rule for the four directions: all positions are in range.\<close>

lemma move_dir_inv:
  assumes "d \<in> set DIRS" and "I (b, m, w)"
    and sl: "\<And>b m w p q. I (b, m, w) \<Longrightarrow> inb p \<Longrightarrow> inb q \<Longrightarrow> p \<noteq> q \<Longrightarrow>
            \<not> truthy (cell b p) \<Longrightarrow> truthy (cell b q) \<Longrightarrow> I (slide_at b p q, True, w)"
    and mg: "\<And>b m w p q. I (b, m, w) \<Longrightarrow> inb p \<Longrightarrow> inb q \<Longrightarrow> p \<noteq> q \<Longrightarrow>
            truthy (cell b p) \<Longrightarrow> truthy (cell b q) \<Longrightarrow> cell b p = cell b q \<Longrightarrow>
            I (merge_at b p q, True, w \<or> (\<not> jc \<and> cell (merge_at b p q) p = Some GOAL))"
  shows "I (move_lines jc d (b, m, w))"
proof (rule move_lines_inv[where L = "Collect inb" and I = I])
  show "\<forall>l\<in>set d. distinct l \<and> set l \<subseteq> Collect inb"
    using DIRS_lines[OF assms(1)] by auto
qed (use assms(2) sl mg in auto)

subsection \<open>The two updates\<close>

lemma wf_slide_at: "wf b \<Longrightarrow> wf (slide_at b p q)"
  by (simp add: slide_at_def wf_setcell)

lemma wf_merge_at: "wf b \<Longrightarrow> wf (merge_at b p q)"
  by (simp add: merge_at_def wf_setcell)

lemma cell_slide_at:
  "wf b \<Longrightarrow> inb p \<Longrightarrow> inb q \<Longrightarrow>
   cell (slide_at b p q) x = (if x = q then None else if x = p then cell b q else cell b x)"
  by (simp add: slide_at_def cell_setcell wf_setcell)

lemma cell_merge_at:
  "wf b \<Longrightarrow> inb p \<Longrightarrow> inb q \<Longrightarrow> p \<noteq> q \<Longrightarrow>
   cell (merge_at b p q) x =
     (if x = p then map_option (\<lambda>v. v * 2) (cell b p) else if x = q then None else cell b x)"
  by (simp add: merge_at_def cell_setcell wf_setcell)

lemma wf_move_lines: "d \<in> set DIRS \<Longrightarrow> wf b \<Longrightarrow> wf (fst (move_lines jc d (b, m, w)))"
  using move_dir_inv[where d = d and I = "\<lambda>st. wf (fst st)" and b = b and m = m and w = w and jc = jc]
  by (simp add: wf_slide_at wf_merge_at)

subsection \<open>The spawn\<close>

lemma randtile_cases: "randtile j = 2 \<or> randtile j = 4"
proof -
  have "j mod 10 < 9 \<or> j mod 10 = 9" by arith
  then show ?thesis
    by (auto simp: randtile_def nth_append)
qed

lemma add_tile_cases:
  "(add_tile_if_room b rnd = b \<and> (\<forall>p. inb p \<longrightarrow> truthy (cell b p))) \<or>
   (\<exists>e t. inb e \<and> \<not> truthy (cell b e) \<and> (t = 2 \<or> t = 4) \<and>
      add_tile_if_room b rnd = setcell b e (Some t))"
proof (cases "filter (\<lambda>p. \<not> truthy (cell b p)) FLATPOS = []")
  case True
  then have "\<forall>p. inb p \<longrightarrow> truthy (cell b p)"
    by (auto simp: filter_empty_conv set_FLATPOS)
  then show ?thesis using True by (simp add: add_tile_if_room_def)
next
  case False
  let ?empty = "filter (\<lambda>p. \<not> truthy (cell b p)) FLATPOS"
  let ?e = "?empty ! (fst rnd mod length ?empty)"
  have lt: "fst rnd mod length ?empty < length ?empty" using False by simp
  from nth_mem[OF lt] have "?e \<in> {x \<in> set FLATPOS. \<not> truthy (cell b x)}"
    by (simp only: set_filter)
  then have "inb ?e \<and> \<not> truthy (cell b ?e)"
    using set_FLATPOS[of ?e] by blast
  moreover have "add_tile_if_room b rnd = setcell b ?e (Some (randtile (snd rnd)))"
    using False by (simp add: add_tile_if_room_def Let_def)
  ultimately show ?thesis using randtile_cases[of "snd rnd"] by blast
qed

lemma wf_add_tile: "wf b \<Longrightarrow> wf (add_tile_if_room b rnd)"
  using add_tile_cases[of b rnd] by (elim disjE exE conjE) (simp_all add: wf_setcell)

subsection \<open>The real move, unfolded\<close>

lemma move_real:
  assumes "move_lines False d (cells s, False, won s) = (b, moved, w)"
  shows "fst (move s d False rnd) = moved"
    and "won (snd (move s d False rnd)) = w"
    and "lost (snd (move s d False rnd)) = (\<not> w \<and> cant_move (s\<lparr>cells := b, won := w\<rparr>))"
    and "cells (snd (move s d False rnd)) =
           (if moved \<and> \<not> w \<and> \<not> cant_move (s\<lparr>cells := b, won := w\<rparr>)
            then add_tile_if_room b rnd else b)"
  using assms by (auto simp: move_def Let_def gameover_def)

subsection \<open>Invariants of the reachable states\<close>

lemma good_empty: "good_grid (replicate N (replicate N None))"
proof -
  have "cell (replicate N (replicate N None)) p = None" if "inb p" for p
    using that by (cases p) simp
  then show ?thesis by (simp add: good_grid_def wf_def list_all_iff)
qed

lemma good_setcell:
  assumes "good_grid b" and "inb p" and "v = None \<or> (\<exists>k. 0 < k \<and> v = Some (2 ^ k))"
  shows "good_grid (setcell b p v)"
  using assms by (auto simp: good_grid_def wf_setcell cell_setcell)

lemma good_add_tile: "good_grid b \<Longrightarrow> good_grid (add_tile_if_room b rnd)"
proof -
  assume g: "good_grid b"
  have 2: "\<exists>k. 0 < k \<and> Some (2::int) = Some (2 ^ k)" by (rule exI[of _ 1]) simp
  have 4: "\<exists>k. 0 < k \<and> Some (4::int) = Some (2 ^ k)" by (rule exI[of _ 2]) simp
  from add_tile_cases[of b rnd] show ?thesis
  proof
    assume "add_tile_if_room b rnd = b \<and> (\<forall>p. inb p \<longrightarrow> truthy (cell b p))"
    then show ?thesis using g by simp
  next
    assume "\<exists>e t. inb e \<and> \<not> truthy (cell b e) \<and> (t = 2 \<or> t = 4) \<and>
      add_tile_if_room b rnd = setcell b e (Some t)"
    then obtain e t where e: "inb e" "t = 2 \<or> t = 4"
      "add_tile_if_room b rnd = setcell b e (Some t)" by blast
    from e(2) have "Some t = None \<or> (\<exists>k. 0 < k \<and> Some t = Some (2 ^ k))"
      using 2 4 by blast
    from good_setcell[OF g e(1) this] show ?thesis using e(3) by simp
  qed
qed

lemma good_gridD:
  "good_grid b \<Longrightarrow> inb p \<Longrightarrow> cell b p = None \<or> (\<exists>k. 0 < k \<and> cell b p = Some (2 ^ k))"
  unfolding good_grid_def by blast

lemma good_slide_at:
  assumes g: "good_grid b" and p: "inb p" and q: "inb q"
  shows "good_grid (slide_at b p q)"
  unfolding good_grid_def
proof (intro conjI allI impI)
  show "wf (slide_at b p q)" using g by (simp add: good_grid_def wf_slide_at)
next
  fix x assume x: "inb x"
  have w: "wf b" using g by (simp add: good_grid_def)
  show "cell (slide_at b p q) x = None \<or> (\<exists>k. 0 < k \<and> cell (slide_at b p q) x = Some (2 ^ k))"
    using good_gridD[OF g x] good_gridD[OF g q]
    by (simp add: cell_slide_at[OF w p q])
qed

lemma good_merge_at:
  assumes g: "good_grid b" and p: "inb p" and q: "inb q" and pq: "p \<noteq> q"
  shows "good_grid (merge_at b p q)"
  unfolding good_grid_def
proof (intro conjI allI impI)
  show "wf (merge_at b p q)" using g by (simp add: good_grid_def wf_merge_at)
next
  fix x assume x: "inb x"
  have w: "wf b" using g by (simp add: good_grid_def)
  have d: "map_option (\<lambda>v. v * 2) (cell b p) = None \<or>
        (\<exists>k. 0 < k \<and> map_option (\<lambda>v. v * 2) (cell b p) = Some (2 ^ k))"
  proof (cases "cell b p")
    case None
    then show ?thesis by simp
  next
    case (Some v)
    with good_gridD[OF g p] obtain k where "0 < k" "v = 2 ^ k" by auto
    then have "map_option (\<lambda>v. v * 2) (cell b p) = Some (2 ^ Suc k)"
      using Some by simp
    then show ?thesis by blast
  qed
  show "cell (merge_at b p q) x = None \<or> (\<exists>k. 0 < k \<and> cell (merge_at b p q) x = Some (2 ^ k))"
    using good_gridD[OF g x] d
    by (simp add: cell_merge_at[OF w p q pq])
qed

lemma good_move_lines:
  "d \<in> set DIRS \<Longrightarrow> good_grid b \<Longrightarrow> good_grid (fst (move_lines jc d (b, m, w)))"
  using move_dir_inv[where d = d and I = "\<lambda>st. good_grid (fst st)" and b = b and m = m
      and w = w and jc = jc]
  by (simp add: good_slide_at good_merge_at)

lemma good_move:
  assumes "d \<in> set DIRS" and "good_grid (cells s)"
  shows "good_grid (cells (snd (move s d jc rnd)))"
proof (cases jc)
  case True
  then show ?thesis using assms(2) by (simp add: move_def move_check_eq[of s d False "won s"])
next
  case False
  obtain b moved w where e: "move_lines False d (cells s, False, won s) = (b, moved, w)"
    by (cases "move_lines False d (cells s, False, won s)") auto
  have "good_grid b"
    using good_move_lines[OF assms, of False False "won s"] e by simp
  then show ?thesis
    using False move_real(4)[OF e, of rnd] good_add_tile[of b rnd] by simp
qed

lemma reachable_good: "reachable s \<Longrightarrow> good_grid (cells s)"
proof (induction rule: reachable.induct)
  case (move s d jc rnd)
  then show ?case by (simp add: good_move)
qed (simp_all add: reset_def good_empty good_add_tile)

lemma DIRS_mem: "UP \<in> set DIRS" "LEFT \<in> set DIRS" "DOWN \<in> set DIRS" "RIGHT \<in> set DIRS"
  by (simp_all add: DIRS_def)

text \<open>
  C7. After \<open>Board()\<close> and any sequence of \<open>reset\<close> and \<open>move\<close> calls, every occupied
  cell of the grid holds \<open>2 ^ k\<close> for some \<open>k \<ge> 1\<close>.
\<close>

theorem tiles_power_of_two:
  "reachable s \<Longrightarrow> inb p \<Longrightarrow> truthy (cell (cells s) p) \<Longrightarrow>
   \<exists>k. 1 \<le> k \<and> cell (cells s) p = Some (2 ^ k)"
proof -
  assume "reachable s" and p: "inb p" and t: "truthy (cell (cells s) p)"
  then have "good_grid (cells s)" by (simp add: reachable_good)
  from good_gridD[OF this p] t obtain k where "0 < k" "cell (cells s) p = Some (2 ^ k)"
    by auto
  then show ?thesis by (intro exI[of _ k]) simp
qed

theorem tiles_power_of_two_witness:
  "reachable (snd (move (reset (0, 0) (0, 0)) LEFT False (0, 0))) \<and> inb (0, 0) \<and>
   truthy (cell (cells (snd (move (reset (0, 0) (0, 0)) LEFT False (0, 0)))) (0, 0)) \<and>
   (\<exists>k. 1 \<le> k \<and>
      cell (cells (snd (move (reset (0, 0) (0, 0)) LEFT False (0, 0)))) (0, 0) = Some (2 ^ k))"
proof -
  let ?s = "snd (move (reset (0, 0) (0, 0)) LEFT False (0, 0))"
  have r: "reachable ?s"
    by (intro reachable.move reachable.new DIRS_mem)
  have i: "inb (0, 0)" by (simp add: N_def)
  have "cell (cells ?s) (0, 0) = Some 4"
    by code_simp
  then have t: "truthy (cell (cells ?s) (0, 0))" by simp
  show ?thesis using r i t tiles_power_of_two[OF r i t] by blast
qed

subsection \<open>\<open>won\<close> and \<open>lost\<close>\<close>

lemma move_won_lost: "won (snd (move s d False rnd)) \<Longrightarrow> \<not> lost (snd (move s d False rnd))"
proof -
  obtain b moved w where e: "move_lines False d (cells s, False, won s) = (b, moved, w)"
    by (cases "move_lines False d (cells s, False, won s)") auto
  assume "won (snd (move s d False rnd))"
  then show ?thesis using move_real(2,3)[OF e, of rnd] by simp
qed

lemma reachable_won_lost: "reachable s \<Longrightarrow> \<not> (won s \<and> lost s)"
proof (induction rule: reachable.induct)
  case (move s d jc rnd)
  show ?case
  proof (cases jc)
    case True
    then show ?thesis
      using move.IH by (simp add: move_def move_check_eq[of s d False "won s"])
  next
    case False
    then show ?thesis using move_won_lost[of s d rnd] by auto
  qed
qed (simp_all add: reset_def)

text \<open>
  C8. In every reachable state \<open>won\<close> and \<open>lost\<close> are not both true; and in any state,
  a real move that ends with \<open>won\<close> set ends with \<open>lost\<close> false.
\<close>

theorem won_lost_exclusive:
  "(reachable s \<longrightarrow> \<not> (won s \<and> lost s)) \<and>
   (won (snd (move s' d False rnd)) \<longrightarrow> \<not> lost (snd (move s' d False rnd)))"
  using reachable_won_lost[of s] move_won_lost[of s' d rnd] by blast

theorem won_lost_exclusive_witness:
  "reachable (reset (0, 0) (0, 0)) \<and>
   \<not> (won (reset (0, 0) (0, 0)) \<and> lost (reset (0, 0) (0, 0))) \<and>
   won (snd (move open_board LEFT False (0, 0))) \<and>
   \<not> lost (snd (move open_board LEFT False (0, 0)))"
proof -
  have w: "won (snd (move open_board LEFT False (0, 0)))"
    by (simp add: eval_defs)
  show ?thesis
    using w reachable.new[of "(0, 0)" "(0, 0)"]
      won_lost_exclusive[of "reset (0, 0) (0, 0)" open_board LEFT "(0, 0)"]
    by blast
qed

subsection \<open>Counting tiles\<close>

lemma count_tiles_card: "count_tiles b = card {p. inb p \<and> truthy (cell b p)}"
proof -
  have "{p. inb p \<and> truthy (cell b p)} = {p. truthy (cell b p)} \<inter> set FLATPOS"
    using set_FLATPOS by blast
  then show ?thesis
    by (simp add: count_tiles_def distinct_length_filter[OF distinct_FLATPOS])
qed

lemma finite_occupied: "finite {p. inb p \<and> truthy (cell b p)}"
proof -
  have "{p. inb p \<and> truthy (cell b p)} \<subseteq> set FLATPOS"
    using set_FLATPOS by blast
  then show ?thesis by (rule finite_subset) simp
qed

lemma count_tiles_le: "count_tiles b \<le> N * N"
proof -
  have "count_tiles b \<le> length FLATPOS"
    by (simp add: count_tiles_def)
  then show ?thesis by (simp add: FLATPOS_eq N_def)
qed

lemma count_slide_at:
  assumes w: "wf b" and p: "inb p" and q: "inb q" and pq: "p \<noteq> q"
    and np: "\<not> truthy (cell b p)" and tq: "truthy (cell b q)"
  shows "count_tiles (slide_at b p q) = count_tiles b"
proof -
  let ?S = "{x. inb x \<and> truthy (cell b x)}"
  have "inb x \<and> truthy (cell (slide_at b p q) x) \<longleftrightarrow> x \<in> insert p (?S - {q})" for x
    using p np tq by (simp add: cell_slide_at[OF w p q]) blast
  then have e: "{x. inb x \<and> truthy (cell (slide_at b p q) x)} = insert p (?S - {q})"
    by blast
  have "p \<notin> ?S - {q}" using np by simp
  then have "card (insert p (?S - {q})) = Suc (card (?S - {q}))"
    using finite_occupied[of b] by (intro card_insert_disjoint) simp_all
  also have "\<dots> = card ?S"
    using q tq by (intro card_Suc_Diff1 finite_occupied) simp
  finally show ?thesis unfolding count_tiles_card e .
qed

lemma count_merge_at:
  assumes w: "wf b" and p: "inb p" and q: "inb q" and pq: "p \<noteq> q"
    and tp: "truthy (cell b p)" and tq: "truthy (cell b q)"
  shows "Suc (count_tiles (merge_at b p q)) = count_tiles b"
proof -
  let ?S = "{x. inb x \<and> truthy (cell b x)}"
  have t2: "truthy (map_option (\<lambda>v. v * 2) (cell b p))"
    using tp by (cases "cell b p") auto
  have "inb x \<and> truthy (cell (merge_at b p q) x) \<longleftrightarrow> x \<in> ?S - {q}" for x
    using p pq tp t2 by (simp add: cell_merge_at[OF w p q pq])
  then have e: "{x. inb x \<and> truthy (cell (merge_at b p q) x)} = ?S - {q}"
    by blast
  have "Suc (card (?S - {q})) = card ?S"
    using q tq by (intro card_Suc_Diff1 finite_occupied) simp
  then show ?thesis unfolding count_tiles_card e .
qed

lemma count_setcell_new:
  assumes w: "wf b" and e: "inb e" and ne: "\<not> truthy (cell b e)" and tv: "truthy v"
  shows "count_tiles (setcell b e v) = Suc (count_tiles b)"
proof -
  let ?S = "{x. inb x \<and> truthy (cell b x)}"
  have "inb x \<and> truthy (cell (setcell b e v) x) \<longleftrightarrow> x \<in> insert e ?S" for x
    using e tv by (simp add: cell_setcell[OF w e])
  then have s: "{x. inb x \<and> truthy (cell (setcell b e v) x)} = insert e ?S"
    by blast
  have "e \<notin> ?S" using ne by simp
  then have "card (insert e ?S) = Suc (card ?S)"
    using finite_occupied[of b] by (intro card_insert_disjoint) simp_all
  then show ?thesis unfolding count_tiles_card s .
qed

lemma count_add_tile:
  assumes w: "wf b"
  shows "count_tiles (add_tile_if_room b rnd) =
           (if \<exists>e. inb e \<and> \<not> truthy (cell b e) then Suc (count_tiles b) else count_tiles b)"
proof -
  from add_tile_cases[of b rnd] show ?thesis
  proof
    assume "add_tile_if_room b rnd = b \<and> (\<forall>p. inb p \<longrightarrow> truthy (cell b p))"
    then show ?thesis by simp
  next
    assume "\<exists>e t. inb e \<and> \<not> truthy (cell b e) \<and> (t = 2 \<or> t = 4) \<and>
      add_tile_if_room b rnd = setcell b e (Some t)"
    then obtain e t where e: "inb e" "\<not> truthy (cell b e)" "t = 2 \<or> t = 4"
      "add_tile_if_room b rnd = setcell b e (Some t)" by blast
    have "truthy (Some t)" using e(3) by auto
    from count_setcell_new[OF w e(1,2) this]
    have "count_tiles (add_tile_if_room b rnd) = Suc (count_tiles b)" using e(4) by simp
    moreover have "\<exists>e. inb e \<and> \<not> truthy (cell b e)" using e(1,2) by blast
    ultimately show ?thesis by simp
  qed
qed

lemma count_move_lines:
  assumes "d \<in> set DIRS" and "wf b"
  shows "count_tiles (fst (move_lines jc d (b, m, w))) \<le> count_tiles b"
proof -
  let ?I = "\<lambda>st :: grid \<times> bool \<times> bool. wf (fst st) \<and> count_tiles (fst st) \<le> count_tiles b"
  have "?I (move_lines jc d (b, m, w))"
  proof (rule move_dir_inv[where I = ?I, OF assms(1)])
    show "?I (b, m, w)" using assms(2) by simp
  next
    fix b' :: grid and m' w' :: bool and p q :: pos
    assume "?I (b', m', w')" "inb p" "inb q" "p \<noteq> q" "\<not> truthy (cell b' p)" "truthy (cell b' q)"
    then show "?I (slide_at b' p q, True, w')"
      by (simp add: wf_slide_at count_slide_at)
  next
    fix b' :: grid and m' w' :: bool and p q :: pos
    assume a: "?I (b', m', w')" "inb p" "inb q" "p \<noteq> q" "truthy (cell b' p)" "truthy (cell b' q)"
    then have "Suc (count_tiles (merge_at b' p q)) = count_tiles b'"
      by (simp add: count_merge_at)
    then show "?I (merge_at b' p q, True, w' \<or> (\<not> jc \<and> cell (merge_at b' p q) p = Some GOAL))"
      using a(1) by (simp add: wf_merge_at)
  qed
  then show ?thesis by simp
qed

text \<open>A move that changed something leaves an empty cell.\<close>

lemma moved_leaves_empty:
  assumes "d \<in> set DIRS" and "wf b" and "fst (snd (move_lines jc d (b, False, w)))"
  shows "\<exists>e. inb e \<and> \<not> truthy (cell (fst (move_lines jc d (b, False, w))) e)"
proof -
  let ?I = "\<lambda>st :: grid \<times> bool \<times> bool.
     wf (fst st) \<and> (fst (snd st) \<longrightarrow> (\<exists>e. inb e \<and> \<not> truthy (cell (fst st) e)))"
  have "?I (move_lines jc d (b, False, w))"
  proof (rule move_dir_inv[where I = ?I, OF assms(1)])
    show "?I (b, False, w)" using assms(2) by simp
  next
    fix b' :: grid and m' w' :: bool and p q :: pos
    assume a: "?I (b', m', w')" "inb p" "inb q" "p \<noteq> q" "\<not> truthy (cell b' p)" "truthy (cell b' q)"
    then have "\<not> truthy (cell (slide_at b' p q) q)"
      by (simp add: cell_slide_at)
    with a(3) have "\<exists>e. inb e \<and> \<not> truthy (cell (slide_at b' p q) e)" by blast
    then show "?I (slide_at b' p q, True, w')"
      using a(1) by (simp add: wf_slide_at)
  next
    fix b' :: grid and m' w' :: bool and p q :: pos
    assume a: "?I (b', m', w')" "inb p" "inb q" "p \<noteq> q" "truthy (cell b' p)" "truthy (cell b' q)"
    then have "\<not> truthy (cell (merge_at b' p q) q)"
      by (simp add: cell_merge_at)
    with a(3) have "\<exists>e. inb e \<and> \<not> truthy (cell (merge_at b' p q) e)" by blast
    then show "?I (merge_at b' p q, True, w' \<or> (\<not> jc \<and> cell (merge_at b' p q) p = Some GOAL))"
      using a(1) by (simp add: wf_merge_at)
  qed
  then show ?thesis using assms(3) by simp
qed

text \<open>
  C9. The number of occupied cells is at most \<open>N * N = 16\<close>. On a grid of the right shape
  and for each of the four directions: the slide and merge loops do not increase the count,
  a real move increases it by at most one, the spawned tile, and a dry run leaves it as it
  was. The slide of a tile into an empty cell keeps the count, and a merge of two tiles takes
  one off.
\<close>

theorem tile_count_bounds:
  assumes "wf (cells s)" and "d \<in> set DIRS"
  shows "count_tiles (cells s) \<le> 16 \<and>
         count_tiles (fst (move_lines jc d (cells s, False, won s))) \<le> count_tiles (cells s) \<and>
         count_tiles (cells (snd (move s d False rnd))) \<le> count_tiles (cells s) + 1 \<and>
         count_tiles (cells (snd (move s d True rnd))) \<le> count_tiles (cells s) \<and>
         (inb p \<and> inb q \<and> p \<noteq> q \<and> \<not> truthy (cell (cells s) p) \<and> truthy (cell (cells s) q) \<longrightarrow>
            count_tiles (slide_at (cells s) p q) = count_tiles (cells s)) \<and>
         (inb p' \<and> inb q' \<and> p' \<noteq> q' \<and> truthy (cell (cells s) p') \<and> truthy (cell (cells s) q') \<longrightarrow>
            Suc (count_tiles (merge_at (cells s) p' q')) = count_tiles (cells s))"
proof -
  obtain b moved w where e: "move_lines False d (cells s, False, won s) = (b, moved, w)"
    by (cases "move_lines False d (cells s, False, won s)") auto
  have 1: "count_tiles (cells s) \<le> 16"
    using count_tiles_le[of "cells s"] by (simp add: N_def)
  have 2: "count_tiles (fst (move_lines jc d (cells s, False, won s))) \<le> count_tiles (cells s)"
    for jc using assms by (simp add: count_move_lines)
  have wb: "wf b" using wf_move_lines[OF assms(2,1), of False False "won s"] e by simp
  have "count_tiles (add_tile_if_room b rnd) \<le> count_tiles b + 1"
    by (simp add: count_add_tile[OF wb])
  moreover have "count_tiles b \<le> count_tiles (cells s)" using 2[of False] e by simp
  ultimately have 3: "count_tiles (cells (snd (move s d False rnd))) \<le> count_tiles (cells s) + 1"
    using move_real(4)[OF e, of rnd] by simp
  have 4: "count_tiles (cells (snd (move s d True rnd))) \<le> count_tiles (cells s)"
    by (simp add: move_def move_check_eq[of s d False "won s"])
  show ?thesis
    using 1 2 3 4 count_slide_at[OF assms(1), of p q] count_merge_at[OF assms(1), of p' q']
    by blast
qed

theorem tile_count_bounds_witness:
  "wf (cells open_board) \<and> LEFT \<in> set DIRS \<and>
   count_tiles (cells open_board) \<le> 16 \<and>
   count_tiles (fst (move_lines False LEFT (cells open_board, False, won open_board)))
     \<le> count_tiles (cells open_board) \<and>
   count_tiles (cells (snd (move open_board LEFT False (0, 0)))) \<le> count_tiles (cells open_board) + 1 \<and>
   count_tiles (cells (snd (move open_board LEFT True (0, 0)))) \<le> count_tiles (cells open_board) \<and>
   inb (1, 0) \<and> inb (1, 1) \<and> (1, 0) \<noteq> (1, 1::nat) \<and>
   \<not> truthy (cell (cells open_board) (1, 0)) \<and> truthy (cell (cells open_board) (1, 1)) \<and>
   count_tiles (slide_at (cells open_board) (1, 0) (1, 1)) = count_tiles (cells open_board) \<and>
   inb (0, 0) \<and> inb (0, 1) \<and> (0, 0) \<noteq> (0, 1::nat) \<and>
   truthy (cell (cells open_board) (0, 0)) \<and> truthy (cell (cells open_board) (0, 1)) \<and>
   Suc (count_tiles (merge_at (cells open_board) (0, 0) (0, 1))) = count_tiles (cells open_board)"
proof -
  have w: "wf (cells open_board)"
    by (simp add: wf_def open_board_def open_grid_def N_def)
  have c: "inb (1, 0) \<and> inb (1, 1) \<and> (1, 0) \<noteq> (1, 1::nat) \<and>
      \<not> truthy (cell (cells open_board) (1, 0)) \<and> truthy (cell (cells open_board) (1, 1)) \<and>
      inb (0, 0) \<and> inb (0, 1) \<and> (0, 0) \<noteq> (0, 1::nat) \<and>
      truthy (cell (cells open_board) (0, 0)) \<and> truthy (cell (cells open_board) (0, 1))"
    by (simp add: open_board_def open_grid_def N_def)
  show ?thesis
    using w c DIRS_mem(2)
      tile_count_bounds[OF w DIRS_mem(2), where jc = False and rnd = "(0, 0)"
        and p = "(1, 0)" and q = "(1, 1)" and p' = "(0, 0)" and q' = "(0, 1)"]
    by blast
qed

text \<open>
  C10. On a grid of the right shape and for each of the four directions: when a real move
  returns true and the game is not over after it, the grid the loops left has an empty cell,
  and the grid after the call is that grid with one such cell set to 2 or 4, so it has
  exactly one tile more.
\<close>

theorem spawn_after_change:
  assumes "wf (cells s)" and "d \<in> set DIRS"
    and "fst (move s d False rnd)" and "\<not> gameover (snd (move s d False rnd))"
  shows "\<exists>e t. inb e \<and> \<not> truthy (cell (fst (move_lines False d (cells s, False, won s))) e) \<and>
           (t = 2 \<or> t = 4) \<and>
           cells (snd (move s d False rnd)) =
             setcell (fst (move_lines False d (cells s, False, won s))) e (Some t) \<and>
           count_tiles (cells (snd (move s d False rnd))) =
             Suc (count_tiles (fst (move_lines False d (cells s, False, won s))))"
proof -
  obtain b moved w where e: "move_lines False d (cells s, False, won s) = (b, moved, w)"
    by (cases "move_lines False d (cells s, False, won s)") auto
  note r = move_real[OF e, of rnd]
  have m: "moved" using assms(3) r(1) by simp
  have "\<not> w" "\<not> cant_move (s\<lparr>cells := b, won := w\<rparr>)"
    using assms(4) r(2,3) by (auto simp: gameover_def)
  then have c: "cells (snd (move s d False rnd)) = add_tile_if_room b rnd"
    using m r(4) by simp
  have wb: "wf b" using wf_move_lines[OF assms(2,1), of False False "won s"] e by simp
  have ex: "\<exists>x. inb x \<and> \<not> truthy (cell b x)"
    using moved_leaves_empty[OF assms(2,1), of False "won s"] e m by simp
  from add_tile_cases[of b rnd] ex obtain x t where x: "inb x" "\<not> truthy (cell b x)"
    "t = 2 \<or> t = 4" "add_tile_if_room b rnd = setcell b x (Some t)" by blast
  have "truthy (Some t)" using x(3) by auto
  from count_setcell_new[OF wb x(1,2) this]
  have "count_tiles (cells (snd (move s d False rnd))) = Suc (count_tiles b)"
    using c x(4) by simp
  then show ?thesis using x c e by (intro exI[of _ x] exI[of _ t]) simp
qed

theorem spawn_after_change_witness:
  "wf (cells (reset (0, 0) (0, 0))) \<and> RIGHT \<in> set DIRS \<and>
   fst (move (reset (0, 0) (0, 0)) RIGHT False (0, 0)) \<and>
   \<not> gameover (snd (move (reset (0, 0) (0, 0)) RIGHT False (0, 0))) \<and>
   (\<exists>e t. inb e \<and>
      \<not> truthy (cell (fst (move_lines False RIGHT
          (cells (reset (0, 0) (0, 0)), False, won (reset (0, 0) (0, 0))))) e) \<and>
      (t = 2 \<or> t = 4) \<and>
      cells (snd (move (reset (0, 0) (0, 0)) RIGHT False (0, 0))) =
        setcell (fst (move_lines False RIGHT
          (cells (reset (0, 0) (0, 0)), False, won (reset (0, 0) (0, 0))))) e (Some t) \<and>
      count_tiles (cells (snd (move (reset (0, 0) (0, 0)) RIGHT False (0, 0)))) =
        Suc (count_tiles (fst (move_lines False RIGHT
          (cells (reset (0, 0) (0, 0)), False, won (reset (0, 0) (0, 0)))))))"
proof -
  have r: "reset (0, 0) (0, 0) =
    \<lparr>cells = [[Some 2, Some 2, None, None], [None, None, None, None],
              [None, None, None, None], [None, None, None, None]],
     won = False, lost = False\<rparr>"
    by code_simp
  have w: "wf (cells (reset (0, 0) (0, 0)))"
    unfolding r by (simp add: wf_def N_def)
  have m: "fst (move (reset (0, 0) (0, 0)) RIGHT False (0, 0))"
    unfolding r by (simp add: eval_defs)
  have g: "\<not> gameover (snd (move (reset (0, 0) (0, 0)) RIGHT False (0, 0)))"
    unfolding r by (simp add: eval_defs)
  show ?thesis
    using w DIRS_mem(4) m g spawn_after_change[OF w DIRS_mem(4) m g] by blast
qed

subsection \<open>A full grid without equal neighbours\<close>

lemma full_list: "full b = list_all (\<lambda>p. truthy (cell b p)) FLATPOS"
  unfolding full_def list_all_iff using set_FLATPOS by blast

lemma rows_list:
  "(\<forall>r c. r < N \<and> c + 1 < N \<longrightarrow> P r c) =
     list_all (\<lambda>r. list_all (\<lambda>c. P r c) [0..<N - 1]) [0..<N]"
  by (auto simp: list_all_iff)

lemma cols_list:
  "(\<forall>r c. r + 1 < N \<and> c < N \<longrightarrow> P r c) =
     list_all (\<lambda>r. list_all (\<lambda>c. P r c) [0..<N]) [0..<N - 1]"
  by (auto simp: list_all_iff)

lemma no_equal_neighbours_list:
  "no_equal_neighbours b =
    (list_all (\<lambda>r. list_all (\<lambda>c. cell b (r, c) \<noteq> cell b (r, c + 1)) [0..<N - 1]) [0..<N] \<and>
     list_all (\<lambda>r. list_all (\<lambda>c. cell b (r, c) \<noteq> cell b (r + 1, c)) [0..<N]) [0..<N - 1])"
  unfolding no_equal_neighbours_def
  by (simp only: rows_list[of "\<lambda>r c. cell b (r, c) \<noteq> cell b (r, c + 1)"]
      cols_list[of "\<lambda>r c. cell b (r, c) \<noteq> cell b (r + 1, c)"])

lemma move_line_stuck:
  assumes "\<forall>p\<in>set l. truthy (cell b p)" and "distinct_adj (map (cell b) l)"
  shows "move_line jc l (b, m, w) = (b, m, w)"
  using assms
proof (induction l)
  case Nil
  then show ?case by simp
next
  case (Cons p rest)
  have s: "slide b p rest = (b, False)" using Cons.prems(1) by (simp add: slide_def)
  show ?case
  proof (cases rest)
    case Nil
    then show ?thesis using s Cons.prems(1) by (simp add: nxt_def)
  next
    case (Cons q rest')
    have n: "nxt b rest = Some q" using Cons Cons.prems(1) by (simp add: nxt_def)
    have "cell b p \<noteq> cell b q" using Cons Cons.prems(2) by simp
    moreover have "move_line jc rest (b, m, w) = (b, m, w)"
      using Cons.IH Cons.prems Cons by simp
    ultimately show ?thesis using s n Cons.prems(1) by simp
  qed
qed

lemma move_lines_stuck:
  assumes "\<forall>l\<in>set ls. (\<forall>p\<in>set l. truthy (cell b p)) \<and> distinct_adj (map (cell b) l)"
  shows "move_lines jc ls (b, m, w) = (b, m, w)"
  using assms by (induction ls) (simp_all add: move_line_stuck)

lemma stuck_lines:
  assumes "full b" and "no_equal_neighbours b" and "d \<in> set DIRS"
  shows "\<forall>l\<in>set d. (\<forall>p\<in>set l. truthy (cell b p)) \<and> distinct_adj (map (cell b) l)"
proof -
  have t: "\<forall>l\<in>set d. \<forall>p\<in>set l. truthy (cell b p)"
    using assms(1) DIRS_lines(2)[OF assms(3)] unfolding full_def by blast
  have u: "list_all (\<lambda>l. distinct_adj (map (cell b) l)) UP"
    and l: "list_all (\<lambda>l. distinct_adj (map (cell b) l)) LEFT"
    using assms(2) unfolding no_equal_neighbours_list
    by (simp_all add: N_def upt_rec UP_eq LEFT_eq numeral_2_eq_2 numeral_3_eq_3)
  have "list_all (\<lambda>l. distinct_adj (map (cell b) l)) DOWN"
    and "list_all (\<lambda>l. distinct_adj (map (cell b) l)) RIGHT"
    using u l by (simp_all add: DOWN_def RIGHT_def list_all_iff rev_map[symmetric])
  with u l have "list_all (list_all (\<lambda>l. distinct_adj (map (cell b) l))) DIRS"
    by (simp add: DIRS_def)
  then have "\<forall>l\<in>set d. distinct_adj (map (cell b) l)"
    using assms(3) by (auto simp: list_all_iff)
  with t show ?thesis by blast
qed

lemma stuck_move_lines:
  assumes "full b" and "no_equal_neighbours b" and "d \<in> set DIRS"
  shows "move_lines jc d (b, m, w) = (b, m, w)"
  using stuck_lines[OF assms] by (rule move_lines_stuck)

lemma stuck_cant_move:
  assumes "full (cells s)" and "no_equal_neighbours (cells s)"
  shows "cant_move s"
proof -
  have "\<not> fst (move_check s d)" if "d \<in> set DIRS" for d
    using stuck_move_lines[OF assms that, of True False "won s"]
    by (simp add: move_check_def)
  then show ?thesis by (auto simp: cant_move_def list_ex_iff)
qed

text \<open>
  C3. In a state whose grid has all cells occupied and no two neighbours of a row or column
  equal, with \<open>won\<close> false, a call \<open>move(d)\<close> with any of the four directions returns
  false and leaves \<open>lost\<close> true (and the grid and \<open>won\<close> as they were).
\<close>

theorem stuck_move_loses:
  assumes "full (cells s)" and "no_equal_neighbours (cells s)" and "\<not> won s"
    and "d \<in> set DIRS"
  shows "\<not> fst (move s d False rnd) \<and> lost (snd (move s d False rnd)) \<and>
         cells (snd (move s d False rnd)) = cells s \<and> \<not> won (snd (move s d False rnd))"
proof -
  have e: "move_lines False d (cells s, False, won s) = (cells s, False, won s)"
    using assms(1,2,4) by (rule stuck_move_lines)
  have "cant_move (s\<lparr>cells := cells s, won := won s\<rparr>)"
    using stuck_cant_move[of "s\<lparr>cells := cells s, won := won s\<rparr>"] assms(1,2) by simp
  then show ?thesis
    using move_real[OF e, of rnd] assms(3) by simp
qed

theorem stuck_move_loses_witness:
  "full (cells stuck_board) \<and> no_equal_neighbours (cells stuck_board) \<and> \<not> won stuck_board \<and>
   UP \<in> set DIRS \<and> \<not> fst (move stuck_board UP False (0, 0)) \<and>
   lost (snd (move stuck_board UP False (0, 0)))"
proof -
  have f: "full (cells stuck_board)"
    by (simp add: full_list FLATPOS_eq stuck_board_def stuck_grid_def)
  have n: "no_equal_neighbours (cells stuck_board)"
    by (simp add: no_equal_neighbours_list N_def upt_rec stuck_board_def stuck_grid_def)
  have w: "\<not> won stuck_board" by (simp add: stuck_board_def)
  show ?thesis
    using f n w DIRS_mem(1) stuck_move_loses[OF f n w DIRS_mem(1), of "(0, 0)"] by blast
qed

subsection \<open>When \<open>won\<close> is set\<close>

lemma move_line_grid_indep:
  "fst (move_line jc l (b, m, w)) = fst (move_line True l (b, False, False))"
proof -
  define G where "G = (\<lambda>l b. fst (move_line True l (b, False, False)))"
  have "fst (move_line jc l (b, m, w)) = G l b" for jc b m w
  proof (induction l arbitrary: jc b m w)
    case Nil
    show ?case by (simp add: G_def)
  next
    case (Cons p rest)
    have G: "G (p # rest) b = fst (move_line True (p # rest) (b, False, False))"
      by (simp add: G_def)
    show ?case unfolding G
      by (simp add: Cons.IH Let_def split: prod.splits option.splits)
  qed
  then show ?thesis by (simp add: G_def)
qed

lemma move_line_Cons:
  assumes "slide b p rest = (b1, ch)"
  shows "move_line jc (p # rest) (b, m, w) =
     (if \<not> truthy (cell b1 p) then (b1, m \<or> ch, w)
      else (case nxt b1 rest of
              None \<Rightarrow> (b1, m \<or> ch, w)
            | Some q \<Rightarrow>
                if cell b1 p = cell b1 q
                then move_line jc rest (merge_at b1 p q, True,
                       w \<or> (\<not> jc \<and> cell (merge_at b1 p q) p = Some GOAL))
                else move_line jc rest (b1, m \<or> ch, w)))"
  by (simp add: assms merge_at_def Let_def split: option.splits)

lemma merged_line_Cons:
  assumes "slide b p rest = (b1, ch)"
  shows "merged_line (p # rest) b =
     (if \<not> truthy (cell b1 p) then []
      else (case nxt b1 rest of
              None \<Rightarrow> []
            | Some q \<Rightarrow>
                if cell b1 p = cell b1 q
                then cell (merge_at b1 p q) p # merged_line rest (merge_at b1 p q)
                else merged_line rest b1))"
  by (simp add: assms split: option.splits)

lemma move_line_won:
  "snd (snd (move_line jc l (b, m, w))) = (w \<or> (\<not> jc \<and> Some GOAL \<in> set (merged_line l b)))"
proof (induction l arbitrary: b m w)
  case Nil
  show ?case by simp
next
  case (Cons p rest)
  obtain b1 ch where s: "slide b p rest = (b1, ch)"
    by (cases "slide b p rest") auto
  note ml = move_line_Cons[OF s, of jc m w] and mg = merged_line_Cons[OF s]
  show ?case
  proof (cases "truthy (cell b1 p)")
    case False
    then show ?thesis by (simp add: ml mg del: move_line.simps merged_line.simps)
  next
    case t: True
    show ?thesis
    proof (cases "nxt b1 rest")
      case None
      then show ?thesis using t by (simp add: ml mg del: move_line.simps merged_line.simps)
    next
      case (Some q)
      show ?thesis
      proof (cases "cell b1 p = cell b1 q")
        case True
        then show ?thesis using t Some by (simp add: ml mg Cons.IH del: move_line.simps merged_line.simps) (auto simp: eq_commute)
      next
        case False
        then show ?thesis using t Some by (simp add: ml mg Cons.IH del: move_line.simps merged_line.simps)
      qed
    qed
  qed
qed

lemma move_lines_won:
  "snd (snd (move_lines jc ls (b, m, w))) = (w \<or> (\<not> jc \<and> Some GOAL \<in> set (merged_lines ls b)))"
proof (induction ls arbitrary: b m w)
  case Nil
  show ?case by simp
next
  case (Cons l ls)
  obtain b1 m1 w1 where e: "move_line jc l (b, m, w) = (b1, m1, w1)"
    by (cases "move_line jc l (b, m, w)") auto
  have w1: "w1 = (w \<or> (\<not> jc \<and> Some GOAL \<in> set (merged_line l b)))"
    using move_line_won[of jc l b m w] e by simp
  have b1: "fst (move_line True l (b, False, False)) = b1"
    using move_line_grid_indep[of jc l b m w] e by simp
  show ?case using e w1 b1 Cons.IH[of b1 m1 w1] by auto
qed

text \<open>
  C4. The flag \<open>won\<close> after a real move is true exactly when it was true before or one of
  the merges of the move left the goal value in its cell; after a dry run it is what it was.
\<close>

theorem won_set_by_goal_merge:
  "won (snd (move s d False rnd)) = (won s \<or> Some GOAL \<in> set (merged_lines d (cells s))) \<and>
   won (snd (move s d True rnd)) = won s"
proof -
  obtain b moved w where e: "move_lines False d (cells s, False, won s) = (b, moved, w)"
    by (cases "move_lines False d (cells s, False, won s)") auto
  have "w = (won s \<or> Some GOAL \<in> set (merged_lines d (cells s)))"
    using move_lines_won[of False d "cells s" False "won s"] e by simp
  then show ?thesis
    using move_real(2)[OF e, of rnd]
    by (simp add: move_def move_check_eq[of s d False "won s"])
qed

theorem won_set_by_goal_merge_witness:
  "merged_lines LEFT (cells open_board) = [Some 4, Some 4, Some GOAL] \<and> \<not> won open_board \<and>
   won (snd (move open_board LEFT False (0, 0))) \<and>
   \<not> won (snd (move open_board LEFT True (0, 0)))"
proof -
  have "merged_lines LEFT (cells open_board) = [Some 4, Some 4, Some GOAL]"
    by (simp add: eval_defs merge_at_def)
  then show ?thesis
    using won_set_by_goal_merge[of open_board LEFT "(0, 0)"] by (simp add: open_board_def)
qed

subsection \<open>Moves after a win\<close>

text \<open>
  C1, as stated, fails: \<open>move\<close> has no early return on \<open>won\<close>. From the board with
  two 1024 tiles, \<open>move(LEFT)\<close> merges them and sets \<open>won\<close>; the next call,
  \<open>move(RIGHT)\<close>, returns true and slides the tiles.
\<close>

theorem move_after_won_counterexample:
  "won (snd (move near_win_board LEFT False (0, 0))) \<and>
   fst (move (snd (move near_win_board LEFT False (0, 0))) RIGHT False (0, 0)) \<and>
   cells (snd (move (snd (move near_win_board LEFT False (0, 0))) RIGHT False (0, 0))) \<noteq>
   cells (snd (move near_win_board LEFT False (0, 0)))"
proof -
  have 1: "snd (move near_win_board LEFT False (0, 0)) =
      \<lparr>cells = [[Some 2048, None, None, None], [Some 2, None, None, None],
                [None, None, None, None], [None, None, None, None]],
       won = True, lost = False\<rparr>"
    by (simp add: eval_defs near_win_board_def near_win_grid_def)
  show ?thesis unfolding 1
    by (simp add: eval_defs)
qed

text \<open>
  C1, amended. Once \<open>won\<close> is true (and \<open>lost\<close> false, as in every reachable state with
  \<open>won\<close>), a real \<open>move(d)\<close> keeps \<open>won\<close> true and \<open>lost\<close> false and spawns no
  tile: the grid after the call is the one the slide and merge loops leave, and the call
  returns their \<open>moved\<close>. When it returns false the whole state is unchanged.
\<close>

theorem move_after_won:
  assumes "won s" and "\<not> lost s"
  shows "won (snd (move s d False rnd)) \<and> \<not> lost (snd (move s d False rnd)) \<and>
         cells (snd (move s d False rnd)) = fst (move_lines False d (cells s, False, won s)) \<and>
         fst (move s d False rnd) = fst (snd (move_lines False d (cells s, False, won s))) \<and>
         (\<not> fst (move s d False rnd) \<longrightarrow> snd (move s d False rnd) = s)"
proof -
  obtain b moved w where e: "move_lines False d (cells s, False, won s) = (b, moved, w)"
    by (cases "move_lines False d (cells s, False, won s)") auto
  have w: "w" using move_lines_won[of False d "cells s" False "won s"] e assms(1) by simp
  note r = move_real[OF e, of rnd]
  have 1: "won (snd (move s d False rnd))" "\<not> lost (snd (move s d False rnd))"
    "cells (snd (move s d False rnd)) = b" "fst (move s d False rnd) = moved"
    using r w by simp_all
  have "snd (move s d False rnd) = s" if "\<not> fst (move s d False rnd)"
  proof -
    have "b = cells s"
      using move_lines_unmoved[of False d "cells s" False "won s"] e that 1(4) by simp
    then show ?thesis using 1 assms by (cases s; cases "snd (move s d False rnd)") simp
  qed
  then show ?thesis using 1 e by simp
qed

theorem move_after_won_witness:
  "won (snd (move near_win_board LEFT False (0, 0))) \<and>
   \<not> lost (snd (move near_win_board LEFT False (0, 0))) \<and>
   \<not> fst (move (snd (move near_win_board LEFT False (0, 0))) LEFT False (0, 0)) \<and>
   snd (move (snd (move near_win_board LEFT False (0, 0))) LEFT False (0, 0)) =
     snd (move near_win_board LEFT False (0, 0))"
proof -
  let ?s = "snd (move near_win_board LEFT False (0, 0))"
  have 1: "?s =
      \<lparr>cells = [[Some 2048, None, None, None], [Some 2, None, None, None],
                [None, None, None, None], [None, None, None, None]],
       won = True, lost = False\<rparr>"
    by (simp add: eval_defs near_win_board_def near_win_grid_def)
  have w: "won ?s" and l: "\<not> lost ?s" by (simp_all add: 1)
  have m: "\<not> fst (move ?s LEFT False (0, 0))"
    unfolding 1 by (simp add: eval_defs)
  show ?thesis
    using w l m move_after_won[OF w l, of LEFT "(0, 0)"] by blast
qed

subsection \<open>The loops against the rule for one line\<close>

lemma length_merge_pairs: "length (merge_pairs ts) \<le> length ts"
  by (induction ts rule: merge_pairs.induct) auto

lemma length_tiles: "length (tiles cs) \<le> length cs"
  by (induction cs rule: tiles.induct) auto

lemma pad_Cons: "pad (Suc n) (t # ts) = Some t # pad n ts"
  by (simp add: pad_def)

lemma pad_Nil: "pad n [] = replicate n None"
  by (simp add: pad_def)

lemma tiles_all_None:
  "\<forall>x\<in>set xs. f x = None \<Longrightarrow> tiles (map f xs) = [] \<and> map f xs = replicate (length xs) None"
  by (induction xs) auto

lemma tiles_first:
  assumes "find (\<lambda>q. truthy (f q)) rest = Some q" and "distinct rest"
    and "\<forall>x\<in>set rest. f x \<noteq> Some 0"
    and "g q = None" and "\<forall>x\<in>set rest. x \<noteq> q \<longrightarrow> g x = f x"
  shows "\<exists>v. f q = Some v \<and> v \<noteq> 0 \<and> tiles (map f rest) = v # tiles (map g rest)"
  using assms
proof (induction rest)
  case Nil
  then show ?case by simp
next
  case (Cons x rest)
  show ?case
  proof (cases "truthy (f x)")
    case True
    then have q: "q = x" using Cons.prems(1) by simp
    from True obtain v where v: "f x = Some v" "v \<noteq> 0" by (cases "f x") auto
    have mg: "map g rest = map f rest"
      using Cons.prems(2,5) q by (intro map_cong) auto
    show ?thesis using q v Cons.prems(4) by (simp add: mg)
  next
    case False
    then have fx: "f x = None" using Cons.prems(3) by (cases "f x") auto
    have 1: "find (\<lambda>q. truthy (f q)) rest = Some q" using False Cons.prems(1) by simp
    then have "q \<in> set rest" by (auto simp: find_Some_iff)
    then have "x \<noteq> q" using Cons.prems(2) by auto
    then have gx: "g x = None" using fx Cons.prems(5) by simp
    from Cons.IH[OF 1] Cons.prems(2,3,4,5) show ?thesis using fx gx by simp
  qed
qed

lemma move_line_wf:
  assumes "distinct l" and "\<forall>p\<in>set l. inb p" and "wf b"
  shows "wf (fst (move_line jc l (b, m, w)))"
proof -
  have "wf (fst (move_line jc l (b, m, w)))"
    by (rule move_line_inv[where L = "set l" and I = "\<lambda>st. wf (fst st)"])
      (use assms in \<open>simp_all add: wf_slide_at wf_merge_at\<close>)
  then show ?thesis .
qed

lemma move_line_frame:
  assumes "distinct l" and "\<forall>p\<in>set l. inb p" and "wf b" and "x \<notin> set l"
  shows "cell (fst (move_line jc l (b, m, w))) x = cell b x"
proof -
  let ?I = "\<lambda>st :: grid \<times> bool \<times> bool. wf (fst st) \<and> cell (fst st) x = cell b x"
  have "?I (move_line jc l (b, m, w))"
  proof (rule move_line_inv[where L = "set l" and I = ?I])
    show "?I (b, m, w)" using assms(3) by simp
  next
    fix b' :: grid and m' w' :: bool and p q :: pos
    assume "?I (b', m', w')" "p \<in> set l" "q \<in> set l"
    then show "?I (slide_at b' p q, True, w')"
      using assms(2,4) by (auto simp: wf_slide_at cell_slide_at)
  next
    fix b' :: grid and m' w' :: bool and p q :: pos
    assume "?I (b', m', w')" "p \<in> set l" "q \<in> set l" "p \<noteq> q"
    then show "?I (merge_at b' p q, True, w' \<or> (\<not> jc \<and> cell (merge_at b' p q) p = Some GOAL))"
      using assms(2,4) by (auto simp: wf_merge_at cell_merge_at)
  qed (use assms in simp_all)
  then show ?thesis by simp
qed

lemma tiles_replicate_None: "tiles (replicate n None) = []"
  by (induction n) auto

lemma move_line_spec:
  assumes "distinct l" and "\<forall>p\<in>set l. inb p" and "wf b" and "\<forall>p\<in>set l. cell b p \<noteq> Some 0"
  shows "map (cell (fst (move_line jc l (b, m, w)))) l = line_spec (map (cell b) l)"
  using assms
proof (induction l arbitrary: b m w)
  case Nil
  show ?case by (simp add: line_spec_def pad_def)
next
  case (Cons p rest)
  let ?n = "length rest"
  have dr: "distinct rest" and pr: "p \<notin> set rest" and ip: "inb p"
    and ir: "\<forall>q\<in>set rest. inb q" and wb: "wf b"
    and nz: "\<forall>x\<in>set rest. cell b x \<noteq> Some 0" and nzp: "cell b p \<noteq> Some 0"
    using Cons.prems by auto
  obtain b1 ch where s: "slide b p rest = (b1, ch)"
    by (cases "slide b p rest") auto
  note ml = move_line_Cons[OF s, of jc m w]
  have b1: "wf b1 \<and> (\<forall>x\<in>set rest. cell b1 x \<noteq> Some 0) \<and> cell b1 p \<noteq> Some 0 \<and>
      tiles (cell b1 p # map (cell b1) rest) = tiles (cell b p # map (cell b) rest) \<and>
      (\<not> truthy (cell b1 p) \<longrightarrow> b1 = b \<and> cell b p = None \<and> (\<forall>x\<in>set rest. cell b x = None))"
  proof (cases "\<not> truthy (cell b p) \<and> nxt b rest \<noteq> None")
    case True
    then obtain q where q: "nxt b rest = Some q" by auto
    have e: "b1 = slide_at b p q"
      using True s q by (simp add: slide_def slide_at_def)
    have qr: "q \<in> set rest" and tq: "truthy (cell b q)" using nxt_Some[OF q] by auto
    have iq: "inb q" and pq: "p \<noteq> q" using qr ir pr by auto
    have bp: "cell b p = None" using True nzp by (cases "cell b p") auto
    note c1 = cell_slide_at[OF wb ip iq]
    have "\<exists>v. cell b q = Some v \<and> v \<noteq> 0 \<and>
        tiles (map (cell b) rest) = v # tiles (map (cell b1) rest)"
    proof (rule tiles_first[OF _ dr nz])
      show "find (\<lambda>q. truthy (cell b q)) rest = Some q" using q by (simp add: nxt_def)
      show "cell b1 q = None" by (simp add: e c1)
      show "\<forall>x\<in>set rest. x \<noteq> q \<longrightarrow> cell b1 x = cell b x"
        using pr by (auto simp: e c1)
    qed
    then obtain v where v: "cell b q = Some v" "v \<noteq> 0"
      "tiles (map (cell b) rest) = v # tiles (map (cell b1) rest)" by blast
    have p1: "cell b1 p = Some v" using pq v(1) by (simp add: e c1)
    have "\<forall>x\<in>set rest. cell b1 x \<noteq> Some 0"
      using nz pr by (auto simp: e c1)
    then show ?thesis
      using p1 v bp e wf_slide_at[OF wb] by simp
  next
    case False
    then have e: "b1 = b" using s by (auto simp: slide_def split: option.splits)
    have "cell b p = None \<and> (\<forall>x\<in>set rest. cell b x = None)" if "\<not> truthy (cell b p)"
    proof -
      have "nxt b rest = None" using False that by blast
      then have "\<forall>x\<in>set rest. \<not> truthy (cell b x)" by (simp add: nxt_None)
      then have "\<forall>x\<in>set rest. cell b x = None"
        using nz by (metis option.exhaust truthy.simps(2))
      moreover have "cell b p = None" using that nzp by (cases "cell b p") auto
      ultimately show ?thesis by simp
    qed
    then show ?thesis using e wb nz nzp by simp
  qed
  then have wb1: "wf b1" and nz1: "\<forall>x\<in>set rest. cell b1 x \<noteq> Some 0"
    and t1: "tiles (cell b1 p # map (cell b1) rest) = tiles (cell b p # map (cell b) rest)"
    by auto
  have spec: "line_spec (cell b p # map (cell b) rest) =
      pad (Suc ?n) (merge_pairs (tiles (cell b1 p # map (cell b1) rest)))"
    unfolding line_spec_def t1 by simp
  show ?case
  proof (cases "truthy (cell b1 p)")
    case False
    with b1 have e: "b1 = b" "cell b p = None" "\<forall>x\<in>set rest. cell b x = None" by auto
    have "map (cell b) rest = replicate ?n None"
      using tiles_all_None[OF e(3)] by auto
    then show ?thesis
      using False e(1,2)
      by (simp add: ml line_spec_def pad_Nil tiles_replicate_None del: move_line.simps)
  next
    case t: True
    then obtain v where v: "cell b1 p = Some v" "v \<noteq> 0" by (cases "cell b1 p") auto
    show ?thesis
    proof (cases "nxt b1 rest")
      case None
      then have "\<forall>x\<in>set rest. \<not> truthy (cell b1 x)" by (simp add: nxt_None)
      then have "\<forall>x\<in>set rest. cell b1 x = None"
        using nz1 by (metis option.exhaust truthy.simps(2))
      from tiles_all_None[OF this]
      have "map (cell b1) rest = replicate ?n None" by auto
      then show ?thesis
        using t None v
        by (simp add: ml spec pad_Cons pad_Nil tiles_replicate_None del: move_line.simps)
    next
      case (Some q)
      have qr: "q \<in> set rest" and tq: "truthy (cell b1 q)" using nxt_Some[OF Some] by auto
      have iq: "inb q" and pq: "p \<noteq> q" using qr ir pr by auto
      have fq: "find (\<lambda>q. truthy (cell b1 q)) rest = Some q" using Some by (simp add: nxt_def)
      show ?thesis
      proof (cases "cell b1 p = cell b1 q")
        case True
        let ?b3 = "merge_at b1 p q"
        let ?w = "w \<or> (\<not> jc \<and> cell ?b3 p = Some GOAL)"
        let ?R = "fst (move_line jc rest (?b3, True, ?w))"
        note c3 = cell_merge_at[OF wb1 ip iq pq]
        have w3: "wf ?b3" by (rule wf_merge_at[OF wb1])
        have "\<exists>v'. cell b1 q = Some v' \<and> v' \<noteq> 0 \<and>
            tiles (map (cell b1) rest) = v' # tiles (map (cell ?b3) rest)"
        proof (rule tiles_first[OF fq dr nz1])
          show "cell ?b3 q = None" using pq by (simp add: c3)
          show "\<forall>x\<in>set rest. x \<noteq> q \<longrightarrow> cell ?b3 x = cell b1 x"
            using pr by (auto simp: c3)
        qed
        then have tl: "tiles (map (cell b1) rest) = v # tiles (map (cell ?b3) rest)"
          using True v by auto
        have nz3: "\<forall>x\<in>set rest. cell ?b3 x \<noteq> Some 0"
          using nz1 pr by (auto simp: c3)
        have IH: "map (cell ?R) rest = pad ?n (merge_pairs (tiles (map (cell ?b3) rest)))"
          using Cons.IH[OF dr ir w3 nz3] by (simp add: line_spec_def)
        have "cell ?R p = cell ?b3 p"
          using move_line_frame[OF dr ir w3 pr] .
        then have Rp: "cell ?R p = Some (v * 2)" using v by (simp add: c3)
        have "move_line jc (p # rest) (b, m, w) = move_line jc rest (?b3, True, ?w)"
          using t Some True by (simp add: ml del: move_line.simps)
        then show ?thesis
          using Rp IH v by (simp add: spec tl pad_Cons del: move_line.simps)
      next
        case False
        let ?R = "fst (move_line jc rest (b1, m \<or> ch, w))"
        let ?g = "\<lambda>x. if x = q then None else cell b1 x"
        have "\<exists>v'. cell b1 q = Some v' \<and> v' \<noteq> 0 \<and>
            tiles (map (cell b1) rest) = v' # tiles (map ?g rest)"
          by (rule tiles_first[OF fq dr nz1]) simp_all
        then obtain v' where v': "cell b1 q = Some v'"
          "tiles (map (cell b1) rest) = v' # tiles (map ?g rest)" by blast
        have ne: "v \<noteq> v'" using False v v' by simp
        have IH: "map (cell ?R) rest = pad ?n (merge_pairs (tiles (map (cell b1) rest)))"
          using Cons.IH[OF dr ir wb1 nz1] by (simp add: line_spec_def)
        have "cell ?R p = cell b1 p"
          using move_line_frame[OF dr ir wb1 pr] .
        then have Rp: "cell ?R p = Some v" using v by simp
        have "move_line jc (p # rest) (b, m, w) = move_line jc rest (b1, m \<or> ch, w)"
          using t Some False by (simp add: ml del: move_line.simps)
        then show ?thesis
          using Rp IH v ne by (simp add: spec v' pad_Cons del: move_line.simps)
      qed
    qed
  qed
qed

lemma move_lines_frame:
  assumes "\<forall>l\<in>set ls. distinct l \<and> (\<forall>p\<in>set l. inb p)" and "wf b" and "x \<notin> set (concat ls)"
  shows "wf (fst (move_lines jc ls (b, m, w))) \<and> cell (fst (move_lines jc ls (b, m, w))) x = cell b x"
  using assms
proof (induction ls arbitrary: b m w)
  case Nil
  then show ?case by simp
next
  case (Cons l ls)
  obtain b1 m1 w1 where e: "move_line jc l (b, m, w) = (b1, m1, w1)"
    by (cases "move_line jc l (b, m, w)") auto
  have l: "distinct l" "\<forall>p\<in>set l. inb p" "x \<notin> set l" using Cons.prems by auto
  have 1: "wf b1" using move_line_wf[OF l(1,2) Cons.prems(2), of jc m w] e by simp
  have 2: "cell b1 x = cell b x"
    using move_line_frame[OF l(1,2) Cons.prems(2) l(3), of jc m w] e by simp
  have "wf (fst (move_lines jc ls (b1, m1, w1))) \<and>
        cell (fst (move_lines jc ls (b1, m1, w1))) x = cell b1 x"
    using Cons.prems(1,3) by (intro Cons.IH 1) auto
  then show ?case using e 2 by simp
qed

lemma move_lines_spec:
  assumes "distinct (concat ls)" and "\<forall>p\<in>set (concat ls). inb p" and "wf b"
    and "l \<in> set ls" and "\<forall>p\<in>set l. cell b p \<noteq> Some 0"
  shows "map (cell (fst (move_lines jc ls (b, m, w)))) l = line_spec (map (cell b) l)"
  using assms
proof (induction ls arbitrary: b m w)
  case Nil
  then show ?case by simp
next
  case (Cons l0 ls)
  obtain b1 m1 w1 where e: "move_line jc l0 (b, m, w) = (b1, m1, w1)"
    by (cases "move_line jc l0 (b, m, w)") auto
  have l0: "distinct l0" "\<forall>p\<in>set l0. inb p" using Cons.prems(1,2) by auto
  have rest: "\<forall>l\<in>set ls. distinct l \<and> (\<forall>p\<in>set l. inb p)"
    using Cons.prems(1,2) by (auto simp: distinct_concat_iff)
  have dis: "set l0 \<inter> set (concat ls) = {}" using Cons.prems(1) by auto
  have wb1: "wf b1" using move_line_wf[OF l0 Cons.prems(3), of jc m w] e by simp
  show ?case
  proof (cases "l = l0")
    case True
    have "map (cell b1) l0 = line_spec (map (cell b) l0)"
      using move_line_spec[OF l0 Cons.prems(3), of jc m w] Cons.prems(5) True e by simp
    moreover have "cell (fst (move_lines jc ls (b1, m1, w1))) x = cell b1 x" if "x \<in> set l0" for x
      using move_lines_frame[OF rest wb1, of x jc m1 w1] that dis by auto
    then have "map (cell (fst (move_lines jc ls (b1, m1, w1)))) l0 = map (cell b1) l0"
      by (intro map_cong) auto
    ultimately show ?thesis using True e by simp
  next
    case False
    then have l: "l \<in> set ls" using Cons.prems(4) by simp
    have "cell b1 x = cell b x" if "x \<in> set l" for x
    proof -
      have "x \<notin> set l0" using that l dis by auto
      from move_line_frame[OF l0 Cons.prems(3) this, of jc m w] e show ?thesis by simp
    qed
    then have same: "map (cell b1) l = map (cell b) l" and nz: "\<forall>p\<in>set l. cell b1 p \<noteq> Some 0"
      using Cons.prems(5) by auto
    have "map (cell (fst (move_lines jc ls (b1, m1, w1)))) l = line_spec (map (cell b1) l)"
      using Cons.prems(1,2) by (intro Cons.IH wb1 l nz) auto
    then show ?thesis using e same by simp
  qed
qed

lemma concat_DIRS: "list_all (\<lambda>d. distinct (concat d) \<and> list_all inb (concat d)) DIRS"
  by (simp add: DIRS_def UP_eq LEFT_eq DOWN_eq RIGHT_eq N_def)

text \<open>
  C5. On a grid of the right shape, for each of the four directions and each of its lines,
  listed from the edge the tiles move to: a line holding \<open>[2, 2, 2, 2]\<close> holds
  \<open>[4, 4, None, None]\<close> after the loops of \<open>move\<close>; and in general (no cell of the
  line holding 0) the line holds its tiles with each tile merged at most once, as
  \<open>line_spec\<close> states it.
\<close>

theorem no_double_merge:
  assumes "wf b" and "d \<in> set DIRS" and "l \<in> set d"
  shows "(map (cell b) l = [Some 2, Some 2, Some 2, Some 2] \<longrightarrow>
            map (cell (fst (move_lines jc d (b, m, w)))) l = [Some 4, Some 4, None, None]) \<and>
         ((\<forall>p\<in>set l. cell b p \<noteq> Some 0) \<longrightarrow>
            map (cell (fst (move_lines jc d (b, m, w)))) l = line_spec (map (cell b) l))"
proof -
  have d: "distinct (concat d)" "\<forall>p\<in>set (concat d). inb p"
    using concat_DIRS assms(2) by (auto simp: list_all_iff)
  have g: "map (cell (fst (move_lines jc d (b, m, w)))) l = line_spec (map (cell b) l)"
    if "\<forall>p\<in>set l. cell b p \<noteq> Some 0"
    using move_lines_spec[OF d assms(1,3) that] .
  have "map (cell (fst (move_lines jc d (b, m, w)))) l = [Some 4, Some 4, None, None]"
    if e: "map (cell b) l = [Some 2, Some 2, Some 2, Some 2]"
  proof -
    have "cell b p \<in> set (map (cell b) l)" if "p \<in> set l" for p using that by simp
    then have "\<forall>p\<in>set l. cell b p \<noteq> Some 0" unfolding e by auto
    from g[OF this] show ?thesis unfolding e by (simp add: line_spec_def pad_def)
  qed
  with g show ?thesis by blast
qed

theorem no_double_merge_witness:
  "wf open_grid \<and> LEFT \<in> set DIRS \<and> [(0, 0), (0, 1), (0, 2), (0, 3)] \<in> set LEFT \<and>
   map (cell open_grid) [(0, 0), (0, 1), (0, 2), (0, 3)] = [Some 2, Some 2, Some 2, Some 2] \<and>
   list_all (\<lambda>p. cell open_grid p \<noteq> Some 0) [(0, 0), (0, 1), (0, 2), (0, 3)] \<and>
   map (cell (fst (move_lines False LEFT (open_grid, False, False))))
     [(0, 0), (0, 1), (0, 2), (0, 3)] = [Some 4, Some 4, None, None] \<and>
   map (cell (fst (move_lines False LEFT (open_grid, False, False))))
     [(0, 0), (0, 1), (0, 2), (0, 3)] =
     line_spec (map (cell open_grid) [(0, 0), (0, 1), (0, 2), (0, 3)])"
proof -
  have w: "wf open_grid" by (simp add: wf_def open_grid_def N_def)
  have l: "[(0, 0), (0, 1), (0, 2), (0, 3)] \<in> set LEFT" by (simp add: LEFT_eq)
  have e: "map (cell open_grid) [(0, 0), (0, 1), (0, 2), (0, 3)] =
      [Some 2, Some 2, Some 2, Some 2]" by (simp add: open_grid_def)
  have n: "\<forall>p\<in>set [(0, 0), (0, 1), (0, 2), (0, 3)]. cell open_grid p \<noteq> Some 0"
    by (simp add: open_grid_def)
  note t = no_double_merge[OF w DIRS_mem(2) l, where jc = False and m = False and w = False]
  have r1: "map (cell (fst (move_lines False LEFT (open_grid, False, False))))
      [(0, 0), (0, 1), (0, 2), (0, 3)] = [Some 4, Some 4, None, None]"
    using conjunct1[OF t] e by (rule mp)
  have r2: "map (cell (fst (move_lines False LEFT (open_grid, False, False))))
      [(0, 0), (0, 1), (0, 2), (0, 3)] =
      line_spec (map (cell open_grid) [(0, 0), (0, 1), (0, 2), (0, 3)])"
    using conjunct2[OF t] n by (rule mp)
  have n': "list_all (\<lambda>p. cell open_grid p \<noteq> Some 0) [(0, 0), (0, 1), (0, 2), (0, 3)]"
    by (simp add: open_grid_def)
  show ?thesis
    using w DIRS_mem(2) l e n' r1 r2 by (intro conjI)
qed

end
